theory Spec2Isabelle
  imports Main
begin

section \<open>Data model\<close>

text \<open>
  The reservation engine of the repository is the pair of in-memory services
  \<^verbatim>\<open>EventService\<close> (the capacity store) and \<^verbatim>\<open>RSVPService\<close> (the reservation ledger).
  An event object and an RSVP object become records. Numbers are \<open>int\<close>: ids, counters
  and clock values are integers, on which a JavaScript number is exact up to \<open>2^53\<close>.

  The field \<open>date\<close> holds the value of \<^verbatim>\<open>new Date(event.date)\<close>: \<open>Some t\<close> is the
  instant \<open>t\<close> in milliseconds, \<open>None\<close> is an Invalid Date (its time value is NaN).
\<close>

record event =
  event_id :: int
  title :: string
  description :: string
  date :: "int option"
  location :: string
  capacity :: int
  currentAttendees :: int
  creator :: string
  creatorName :: string
  attendees :: "string list"
  event_createdAt :: int

datatype rsvp_status = attending | cancelled

text \<open>
  \<^verbatim>\<open>createRSVP\<close> builds an RSVP object with the properties \<^verbatim>\<open>id\<close>, \<^verbatim>\<open>userId\<close>,
  \<^verbatim>\<open>eventId\<close>, \<^verbatim>\<open>status\<close> and \<^verbatim>\<open>createdAt\<close>. A JavaScript object answers a read of a
  property that was never written with \<^verbatim>\<open>undefined\<close>; \<open>cancelledAt\<close> is that read of
  \<^verbatim>\<open>rsvp.cancelledAt\<close>, with \<open>None\<close> for \<^verbatim>\<open>undefined\<close>. No statement of the services
  writes it.
\<close>

record rsvp =
  rsvp_id :: int
  userId :: string
  eventId :: int
  status :: rsvp_status
  rsvp_createdAt :: int
  cancelledAt :: "int option"

text \<open>
  The two services are module-level singletons; their mutable fields together are the
  state: \<^verbatim>\<open>EventService.events\<close>, \<^verbatim>\<open>EventService.nextEventId\<close> and
  \<^verbatim>\<open>RSVPService.rsvps\<close>.
\<close>

record store =
  events :: "event list"
  nextEventId :: int
  rsvps :: "rsvp list"

text \<open>
  A service call answers \<^verbatim>\<open>{ success: false, error }\<close> or \<^verbatim>\<open>{ success: true, ... }\<close>:
  \<open>Inl\<close> carries the error message, \<open>Inr\<close> the payload of the success.
\<close>

type_synonym 'a result = "string + 'a"

section \<open>Array helpers\<close>

text \<open>
  \<^verbatim>\<open>Array.prototype.find\<close> is \<^const>\<open>List.find\<close>. \<^verbatim>\<open>findIndex\<close> answers the first
  index whose element satisfies the predicate, \<open>None\<close> standing for \<^verbatim>\<open>-1\<close>.
\<close>

fun findIndex :: "('a \<Rightarrow> bool) \<Rightarrow> 'a list \<Rightarrow> nat option" where
  "findIndex P [] = None"
| "findIndex P (x # xs) = (if P x then Some 0 else map_option Suc (findIndex P xs))"

text \<open>
  \<^verbatim>\<open>const o = xs.find(p); if (o) { mutate o }\<close> changes the first element that satisfies
  \<open>p\<close> in place and nothing else.
\<close>

fun update_first :: "('a \<Rightarrow> bool) \<Rightarrow> ('a \<Rightarrow> 'a) \<Rightarrow> 'a list \<Rightarrow> 'a list" where
  "update_first P f [] = []"
| "update_first P f (x # xs) = (if P x then f x # xs else x # update_first P f xs)"

section \<open>EventService\<close>

text \<open>
  \<^verbatim>\<open>initializeDefaultEvents\<close> reads the clock four times: for \<open>tomorrow\<close> (14:00 local
  time of the next day), for \<open>nextWeek\<close> (18:30 local time seven days on) and for the two
  \<^verbatim>\<open>createdAt\<close> stamps. Calendar arithmetic depends on the time zone of the process, so
  the four instants are parameters. The two description texts are named constants.
\<close>

definition techConferenceDescription :: string where
  "techConferenceDescription =
     ''Join us for an exciting technology conference featuring the latest innovations in web development, AI, and cloud computing. Network with industry professionals and learn from expert speakers.''"

definition communityMeetupDescription :: string where
  "communityMeetupDescription =
     ''Monthly community meetup for developers and tech enthusiasts. Come share your projects, learn new skills, and connect with like-minded people in a casual environment.''"

definition initializeDefaultEvents :: "int \<Rightarrow> int \<Rightarrow> int \<Rightarrow> int \<Rightarrow> event list" where
  "initializeDefaultEvents tomorrow nextWeek created1 created2 =
     [ \<lparr> event_id = 1,
         title = ''Tech Conference 2024'',
         description = techConferenceDescription,
         date = Some tomorrow,
         location = ''Convention Center, Downtown'',
         capacity = 150,
         currentAttendees = 23,
         creator = ''admin'',
         creatorName = ''Event Admin'',
         attendees = [],
         event_createdAt = created1 \<rparr>,
       \<lparr> event_id = 2,
         title = ''Community Meetup'',
         description = communityMeetupDescription,
         date = Some nextWeek,
         location = ''Community Center, Main Street'',
         capacity = 50,
         currentAttendees = 12,
         creator = ''admin'',
         creatorName = ''Event Admin'',
         attendees = [],
         event_createdAt = created2 \<rparr> ]"

text \<open>
  The constructors of the two services: the default events, \<^verbatim>\<open>nextEventId = 3\<close> and an
  empty RSVP list.
\<close>

definition initialStore :: "int \<Rightarrow> int \<Rightarrow> int \<Rightarrow> int \<Rightarrow> store" where
  "initialStore tomorrow nextWeek created1 created2 =
     \<lparr> events = initializeDefaultEvents tomorrow nextWeek created1 created2,
       nextEventId = 3,
       rsvps = [] \<rparr>"

text \<open>
  The route parameter \<^verbatim>\<open>eventId\<close> is a string and every use of it in the two services is
  \<^verbatim>\<open>parseInt(eventId)\<close>. The functions below take that parsed value: \<open>Some i\<close> for the
  integer \<open>i\<close>, \<open>None\<close> for NaN, which is \<^verbatim>\<open>===\<close> to nothing.

  \<^verbatim>\<open>getEventById\<close> answers the first event with the id, or \<^verbatim>\<open>'Event not found'\<close>. (The
  code wraps the event with \<^verbatim>\<open>_id\<close> and a \<^verbatim>\<open>creator\<close> object for the front end; the
  stored fields are passed on unchanged, and the model returns them.)
\<close>

definition hasId :: "int option \<Rightarrow> event \<Rightarrow> bool" where
  "hasId eid e \<longleftrightarrow> Some (event_id e) = eid"

definition getEventById :: "store \<Rightarrow> int option \<Rightarrow> event result" where
  "getEventById s eid =
     (case find (hasId eid) (events s) of
        None \<Rightarrow> Inl ''Event not found''
      | Some e \<Rightarrow> Inr e)"

subsection \<open>Validators\<close>

text \<open>
  \<^verbatim>\<open>String.prototype.trim\<close> on the white space of ASCII, and
  \<^verbatim>\<open>sanitizeString(str) = str ? str.trim().replace(/[<>]/g, '') : ''\<close>.
\<close>

definition isWhiteSpace :: "char \<Rightarrow> bool" where
  "isWhiteSpace c \<longleftrightarrow> c \<in> set [CHR '' '', CHR 0x09, CHR 0x0A, CHR 0x0B, CHR 0x0C, CHR 0x0D]"

definition trim :: "string \<Rightarrow> string" where
  "trim str = rev (dropWhile isWhiteSpace (rev (dropWhile isWhiteSpace str)))"

definition sanitizeString :: "string \<Rightarrow> string" where
  "sanitizeString str =
     (if str = [] then []
      else filter (\<lambda>c. c \<noteq> CHR ''<'' \<and> c \<noteq> CHR ''>'') (trim str))"

text \<open>
  The body of a create-event request. The three texts are strings (an absent one is the
  empty string, which is falsy as \<^verbatim>\<open>undefined\<close> is). \<open>ed_date\<close> is \<open>None\<close> for a
  missing or empty date and \<open>Some d\<close> for a date string whose \<^verbatim>\<open>new Date(date)\<close> has the
  time value \<open>d\<close> (again \<open>None\<close> for an Invalid Date). \<open>ed_capacity\<close> is an integer of the
  JSON body.
\<close>

record eventData =
  ed_title :: string
  ed_description :: string
  ed_date :: "int option option"
  ed_location :: string
  ed_capacity :: int

text \<open>
  \<^verbatim>\<open>new Date(d) <= new Date()\<close> compares the time values; a comparison with NaN is
  false.
\<close>

definition notAfter :: "int option \<Rightarrow> int \<Rightarrow> bool" where
  "notAfter d now = (case d of None \<Rightarrow> False | Some t \<Rightarrow> t \<le> now)"

text \<open>\<^verbatim>\<open>validateEventData\<close> collects the error messages; the data is valid when there is none.\<close>

definition validateEventData :: "eventData \<Rightarrow> int \<Rightarrow> string list" where
  "validateEventData ed now =
     (if ed_title ed = [] \<or> length (trim (ed_title ed)) < 3
      then [''Title must be at least 3 characters long''] else []) @
     (if ed_description ed = [] \<or> length (trim (ed_description ed)) < 10
      then [''Description must be at least 10 characters long''] else []) @
     (if (case ed_date ed of None \<Rightarrow> True | Some d \<Rightarrow> notAfter d now)
      then [''Event date must be in the future''] else []) @
     (if ed_location ed = [] \<or> length (trim (ed_location ed)) < 3
      then [''Location must be at least 3 characters long''] else []) @
     (if ed_capacity ed = 0 \<or> ed_capacity ed < 1 \<or> ed_capacity ed > 10000
      then [''Capacity must be between 1 and 10,000''] else [])"

text \<open>
  \<^verbatim>\<open>createEvent\<close>: an invalid request answers the errors and changes nothing. A valid one
  appends a new event with the id \<^verbatim>\<open>this.nextEventId++\<close> and
  \<^verbatim>\<open>currentAttendees: 0\<close>. \<open>now\<close> is the clock read by the validator, \<open>created\<close> the one
  read for \<^verbatim>\<open>createdAt\<close>.
\<close>

definition createEvent ::
  "store \<Rightarrow> eventData \<Rightarrow> string \<Rightarrow> int \<Rightarrow> int \<Rightarrow> (string list + event) \<times> store" where
  "createEvent s ed uid now created =
     (let errors = validateEventData ed now in
      if errors \<noteq> [] then (Inl errors, s)
      else
        let newEvent =
              \<lparr> event_id = nextEventId s,
                title = sanitizeString (ed_title ed),
                description = sanitizeString (ed_description ed),
                date = (case ed_date ed of None \<Rightarrow> None | Some d \<Rightarrow> d),
                location = sanitizeString (ed_location ed),
                capacity = ed_capacity ed,
                currentAttendees = 0,
                creator = uid,
                creatorName = ''User'',
                attendees = [],
                event_createdAt = created \<rparr>
        in (Inr newEvent,
            s \<lparr> nextEventId := nextEventId s + 1, events := events s @ [newEvent] \<rparr>))"

section \<open>RSVPService\<close>

text \<open>
  The predicate of the three searches of the RSVP list:
  \<^verbatim>\<open>r.userId === userId && r.eventId === parseInt(eventId) && r.status === 'attending'\<close>.
\<close>

definition isActiveRsvp :: "string \<Rightarrow> int option \<Rightarrow> rsvp \<Rightarrow> bool" where
  "isActiveRsvp uid eid r \<longleftrightarrow> userId r = uid \<and> Some (eventId r) = eid \<and> status r = attending"

text \<open>
  The \<^verbatim>\<open>event\<close> property of a successful answer is
  \<^verbatim>\<open>EventService.getEventById(eventId).event\<close>, which is \<^verbatim>\<open>undefined\<close> (\<open>None\<close>) when the
  event is not in the store.
\<close>

definition eventSnapshot :: "store \<Rightarrow> int option \<Rightarrow> event option" where
  "eventSnapshot s eid = (case getEventById s eid of Inl _ \<Rightarrow> None | Inr e \<Rightarrow> Some e)"

text \<open>
  \<^verbatim>\<open>createRSVP(eventId, userId)\<close>. The function is \<^verbatim>\<open>async\<close> but awaits nothing, so its
  body runs to completion when it is called. It reads the clock three times: \<open>now\<close> for the
  past-event check, \<open>stamp\<close> for \<^verbatim>\<open>id: Date.now()\<close> and \<open>created\<close> for \<^verbatim>\<open>createdAt\<close>.
  The checks are made in the order of the code: unknown event, past event, existing
  RSVP, capacity.
\<close>

definition createRSVP ::
  "store \<Rightarrow> int option \<Rightarrow> string \<Rightarrow> int \<Rightarrow> int \<Rightarrow> int \<Rightarrow> event option result \<times> store" where
  "createRSVP s eid uid now stamp created =
     (case getEventById s eid of
        Inl err \<Rightarrow> (Inl err, s)
      | Inr ev \<Rightarrow>
          if notAfter (date ev) now then (Inl ''Cannot RSVP to past events'', s)
          else if find (isActiveRsvp uid eid) (rsvps s) \<noteq> None
            then (Inl ''You have already RSVP'd to this event'', s)
          else if currentAttendees ev \<ge> capacity ev
            then (Inl ''Event is at full capacity'', s)
          else
            let r = \<lparr> rsvp_id = stamp, userId = uid, eventId = the eid,
                      status = attending, rsvp_createdAt = created, cancelledAt = None \<rparr>;
                s1 = s \<lparr> rsvps := rsvps s @ [r] \<rparr>;
                s2 = s1 \<lparr> events :=
                       update_first (hasId eid)
                         (\<lambda>e. e \<lparr> currentAttendees := currentAttendees e + 1,
                                  attendees := attendees e @ [uid] \<rparr>)
                         (events s1) \<rparr>
            in (Inr (eventSnapshot s2 eid), s2))"

text \<open>
  \<^verbatim>\<open>cancelRSVP(eventId, userId)\<close>: the first attending RSVP of the user for the event has
  its status set to \<^verbatim>\<open>'cancelled'\<close>; when the event is in the store its counter goes down
  by one, with no check of the counter, and the user leaves \<^verbatim>\<open>attendees\<close>.
\<close>

definition cancelRSVP :: "store \<Rightarrow> int option \<Rightarrow> string \<Rightarrow> event option result \<times> store" where
  "cancelRSVP s eid uid =
     (case findIndex (isActiveRsvp uid eid) (rsvps s) of
        None \<Rightarrow> (Inl ''No active RSVP found for this event'', s)
      | Some rsvpIndex \<Rightarrow>
          let s1 = s \<lparr> rsvps := (rsvps s)[rsvpIndex := (rsvps s ! rsvpIndex) \<lparr> status := cancelled \<rparr>] \<rparr>;
              s2 = s1 \<lparr> events :=
                     update_first (hasId eid)
                       (\<lambda>e. e \<lparr> currentAttendees := currentAttendees e - 1,
                                attendees := filter (\<lambda>i. i \<noteq> uid) (attendees e) \<rparr>)
                       (events s1) \<rparr>
          in (Inr (eventSnapshot s2 eid), s2))"

section \<open>Sequences of calls\<close>

text \<open>
  A call of one of the three mutating operations, with its arguments and the clock values
  it reads. \<open>step\<close> keeps the store a call leaves behind; \<open>run\<close> applies a sequence of
  calls from left to right.
\<close>

datatype call =
    CreateRSVP "int option" string int int int
  | CancelRSVP "int option" string
  | CreateEvent eventData string int int

fun step :: "store \<Rightarrow> call \<Rightarrow> store" where
  "step s (CreateRSVP eid uid now stamp created) = snd (createRSVP s eid uid now stamp created)"
| "step s (CancelRSVP eid uid) = snd (cancelRSVP s eid uid)"
| "step s (CreateEvent ed uid now created) = snd (createEvent s ed uid now created)"

definition run :: "call list \<Rightarrow> store \<Rightarrow> store" where
  "run cs s = foldl step s cs"

fun isRsvpCall :: "call \<Rightarrow> bool" where
  "isRsvpCall (CreateRSVP _ _ _ _ _) = True"
| "isRsvpCall (CancelRSVP _ _) = True"
| "isRsvpCall (CreateEvent _ _ _ _) = False"

subsection \<open>Calls in flight at once\<close>

text \<open>
  \<^verbatim>\<open>createRSVP\<close> awaits nothing, so a call that has started runs to its \<^verbatim>\<open>return\<close>
  before any other code of the process runs: calls that are in flight at once are
  executed one after the other, in some order. A request is the user of a call and the
  three clock values the call reads; \<open>createRSVPs\<close> executes the requests of a list in the
  order of the list, all for the same event, and gives the answers in that order and the
  store left behind.

  \<open>newRsvp\<close> is the record literal of \<^verbatim>\<open>createRSVP\<close>. A request is \<open>admissible\<close> when its
  user holds no attending RSVP for the event and its clock is before the date of the
  event, so that only the capacity check can refuse it.
\<close>

type_synonym request = "string \<times> int \<times> int \<times> int"

fun createRSVPs :: "store \<Rightarrow> int option \<Rightarrow> request list \<Rightarrow> event option result list \<times> store" where
  "createRSVPs s eid [] = ([], s)"
| "createRSVPs s eid ((uid, now, stamp, created) # cs) =
     (let (r, s1) = createRSVP s eid uid now stamp created;
          (rs, s2) = createRSVPs s1 eid cs
      in (r # rs, s2))"



section \<open>Observations\<close>

text \<open>
  \<open>reservedCount\<close> is the counter of the resource with the given id, when it is in the
  store; \<open>activeCount\<close> is the number of RSVP records of the event with status
  \<^verbatim>\<open>'attending'\<close>.
\<close>

definition reservedCount :: "store \<Rightarrow> int option \<Rightarrow> int option" where
  "reservedCount s eid = map_option currentAttendees (find (hasId eid) (events s))"

definition activeCount :: "store \<Rightarrow> int \<Rightarrow> nat" where
  "activeCount s i = length (filter (\<lambda>r. eventId r = i \<and> status r = attending) (rsvps s))"

text \<open>
  The counter a resource has when it enters the store: 23 and 12 for the two default
  events (ids 1 and 2), 0 for every event of \<^verbatim>\<open>createEvent\<close>, whose ids start at 3.
\<close>

definition entryAttendees :: "int \<Rightarrow> int" where
  "entryAttendees i = (if i = 1 then 23 else if i = 2 then 12 else 0)"

section \<open>Invariants of the store\<close>

text \<open>
  \<open>activeOf uid i\<close> is the search predicate of the RSVP list for a parsed event id that
  is a number. \<open>withinCapacity\<close> says that no counter is above its capacity.
  \<open>wellFormed\<close> collects what every store reached from the initial one satisfies: event
  ids are distinct and below \<open>nextEventId\<close>, which is at least 3; every RSVP record
  names an event id that has been handed out; every counter is the entry value of its
  event plus the number of attending records of the event; and a user has at most one
  attending record per event.
\<close>

definition activeOf :: "string \<Rightarrow> int \<Rightarrow> rsvp \<Rightarrow> bool" where
  "activeOf uid i r \<longleftrightarrow> userId r = uid \<and> eventId r = i \<and> status r = attending"

definition withinCapacity :: "store \<Rightarrow> bool" where
  "withinCapacity s \<longleftrightarrow> (\<forall>e\<in>set (events s). currentAttendees e \<le> capacity e)"

definition wellFormed :: "store \<Rightarrow> bool" where
  "wellFormed s \<longleftrightarrow>
     distinct (map event_id (events s)) \<and>
     3 \<le> nextEventId s \<and>
     (\<forall>e\<in>set (events s). event_id e < nextEventId s) \<and>
     (\<forall>r\<in>set (rsvps s). eventId r < nextEventId s) \<and>
     (\<forall>e\<in>set (events s).
        currentAttendees e = entryAttendees (event_id e) + int (activeCount s (event_id e))) \<and>
     (\<forall>uid i. length (filter (activeOf uid i) (rsvps s)) \<le> 1)"

section \<open>Sample inputs\<close>

text \<open>
  Concrete inputs for the evaluations below: the initial store with the default events
  dated at the instants 1000 and 2000, that store after the user \<open>ann\<close> has booked event
  1 at the instant 10, the same after she has cancelled again, a valid create-event
  request for an event of capacity 2, and the initial store after \<open>carl\<close> has made that
  request, which adds the event with the id 3.
\<close>

abbreviation demoStore :: store where
  "demoStore \<equiv> initialStore 1000 2000 0 0"

abbreviation annBooked :: store where
  "annBooked \<equiv> run [CreateRSVP (Some 1) ''ann'' 10 11 12] demoStore"

abbreviation annCancelled :: store where
  "annCancelled \<equiv> run [CancelRSVP (Some 1) ''ann''] annBooked"

abbreviation demoParty :: eventData where
  "demoParty \<equiv> \<lparr> ed_title = ''Party'', ed_description = ''A small garden party'',
                  ed_date = Some (Some 5000), ed_location = ''Garden'', ed_capacity = 2 \<rparr>"


section \<open>Lists: searching and updating in place\<close>

lemma findIndex_None: "findIndex P xs = None \<longleftrightarrow> (\<forall>x\<in>set xs. \<not> P x)"
  by (induction xs) auto

lemma findIndex_Some:
  "findIndex P xs = Some i \<Longrightarrow> i < length xs \<and> P (xs ! i) \<and> (\<forall>j<i. \<not> P (xs ! j))"
proof (induction xs arbitrary: i)
  case Nil
  then show ?case by simp
next
  case (Cons x xs)
  show ?case
  proof (cases "P x")
    case True
    with Cons.prems show ?thesis by simp
  next
    case False
    with Cons.prems obtain k where k: "findIndex P xs = Some k" "i = Suc k"
      by auto
    from Cons.IH [OF k(1)] False k(2) show ?thesis
      by (auto simp: less_Suc_eq_0_disj)
  qed
qed

lemma map_update_first:
  "(\<And>x. g (f x) = g x) \<Longrightarrow> map g (update_first P f xs) = map g xs"
  by (induction xs) auto

lemma find_update_first:
  "find P xs = Some e \<Longrightarrow> P (f e) \<Longrightarrow> find P (update_first P f xs) = Some (f e)"
  by (induction xs) (auto split: if_splits)

lemma update_first_distinct:
  "distinct (map event_id xs) \<Longrightarrow>
   update_first (hasId eid) f xs = map (\<lambda>e. if hasId eid e then f e else e) xs"
proof (induction xs)
  case Nil
  then show ?case by simp
next
  case (Cons x xs)
  show ?case
  proof (cases "hasId eid x")
    case True
    with Cons.prems have "\<forall>e\<in>set xs. \<not> hasId eid e"
      by (force simp: hasId_def image_iff)
    then have "map (\<lambda>e. if hasId eid e then f e else e) xs = xs"
      by (simp add: map_idI)
    with True show ?thesis by simp
  next
    case False
    with Cons show ?thesis by simp
  qed
qed

lemma length_filter_update:
  "i < length xs \<Longrightarrow>
   length (filter Q (xs[i := y])) + (if Q (xs ! i) then 1 else 0) =
   length (filter Q xs) + (if Q y then 1 else 0)"
proof (induction xs arbitrary: i)
  case Nil
  then show ?case by simp
next
  case (Cons x xs)
  then show ?case by (cases i) auto
qed

lemma getEventById_Inr:
  "getEventById s eid = Inr e \<longleftrightarrow> find (hasId eid) (events s) = Some e"
  by (simp add: getEventById_def split: option.splits)

lemma find_hasId: "find (hasId eid) xs = Some e \<Longrightarrow> eid = Some (event_id e) \<and> e \<in> set xs"
  by (auto simp: find_Some_iff hasId_def)

lemma update_first_cases:
  "e \<in> set (update_first P f xs) \<Longrightarrow> e \<in> set xs \<or> (\<exists>x. find P xs = Some x \<and> e = f x)"
  by (induction xs) (auto split: if_splits)

section \<open>What a call returns and leaves behind\<close>

lemma createRSVP_Inl:
  assumes "createRSVP s eid uid now stamp created = (Inl m, s')"
  shows "s' = s"
  using assms
  by (auto simp: createRSVP_def Let_def split: sum.splits if_splits)

lemma createRSVP_Inr:
  assumes "createRSVP s eid uid now stamp created = (Inr x, s')"
  obtains ev where
    "find (hasId eid) (events s) = Some ev"
    "\<not> notAfter (date ev) now"
    "find (isActiveRsvp uid eid) (rsvps s) = None"
    "currentAttendees ev < capacity ev"
    "rsvps s' = rsvps s @ [\<lparr> rsvp_id = stamp, userId = uid, eventId = event_id ev,
                      status = attending, rsvp_createdAt = created, cancelledAt = None \<rparr>]"
    "events s' = update_first (hasId eid)
                   (\<lambda>e. e \<lparr> currentAttendees := currentAttendees e + 1,
                            attendees := attendees e @ [uid] \<rparr>) (events s)"
    "nextEventId s' = nextEventId s"
    "x = eventSnapshot s' eid"
proof (cases "getEventById s eid")
  case (Inl m)
  with assms show ?thesis by (simp add: createRSVP_def)
next
  case (Inr ev)
  then have f: "find (hasId eid) (events s) = Some ev"
    by (simp add: getEventById_Inr)
  then have e: "eid = Some (event_id ev)"
    by (simp add: find_hasId)
  from assms Inr e show ?thesis
    by (intro that [of ev] f) (auto simp: createRSVP_def Let_def split: if_splits)
qed

lemma cancelRSVP_Inl:
  assumes "cancelRSVP s eid uid = (Inl m, s')"
  shows "s' = s \<and> m = ''No active RSVP found for this event'' \<and> findIndex (isActiveRsvp uid eid) (rsvps s) = None"
  using assms
  by (auto simp: cancelRSVP_def Let_def split: option.splits)

lemma cancelRSVP_Inr:
  assumes "cancelRSVP s eid uid = (Inr x, s')"
  obtains k where
    "findIndex (isActiveRsvp uid eid) (rsvps s) = Some k"
    "k < length (rsvps s)"
    "isActiveRsvp uid eid (rsvps s ! k)"
    "rsvps s' = (rsvps s)[k := (rsvps s ! k) \<lparr> status := cancelled \<rparr>]"
    "events s' = update_first (hasId eid)
                   (\<lambda>e. e \<lparr> currentAttendees := currentAttendees e - 1,
                            attendees := filter (\<lambda>i. i \<noteq> uid) (attendees e) \<rparr>) (events s)"
    "nextEventId s' = nextEventId s"
    "x = eventSnapshot s' eid"
proof (cases "findIndex (isActiveRsvp uid eid) (rsvps s)")
  case None
  with assms show ?thesis by (simp add: cancelRSVP_def)
next
  case (Some k)
  from findIndex_Some [OF Some] have "k < length (rsvps s)" "isActiveRsvp uid eid (rsvps s ! k)"
    by simp_all
  with assms Some show ?thesis
    by (intro that [of k]) (auto simp: cancelRSVP_def Let_def)
qed

section \<open>Reachable stores are well formed\<close>

lemma wellFormed_initialStore: "wellFormed (initialStore t1 t2 c1 c2)"
  by (simp add: wellFormed_def initialStore_def initializeDefaultEvents_def
      entryAttendees_def activeCount_def)

lemma isActiveRsvp_Some: "isActiveRsvp uid (Some i) = activeOf uid i"
  by (auto simp: isActiveRsvp_def activeOf_def fun_eq_iff)

lemma filter_activeOf_empty:
  "find (activeOf uid i) rs = None \<Longrightarrow> filter (activeOf uid i) rs = []"
  by (auto simp: find_None_iff filter_empty_conv)

lemma wellFormed_createRSVP:
  assumes wf: "wellFormed s"
  shows "wellFormed (snd (createRSVP s eid uid now stamp created))"
proof (cases "createRSVP s eid uid now stamp created")
  case (Pair res s')
  show ?thesis
  proof (cases res)
    case (Inl m)
    with Pair have "s' = s" by (simp add: createRSVP_Inl)
    with Pair wf show ?thesis by simp
  next
    case (Inr x)
    from Pair [unfolded Inr] obtain ev where
      found: "find (hasId eid) (events s) = Some ev" and
      nodup: "find (isActiveRsvp uid eid) (rsvps s) = None" and
      rs: "rsvps s' = rsvps s @ [\<lparr> rsvp_id = stamp, userId = uid, eventId = event_id ev,
                      status = attending, rsvp_createdAt = created, cancelledAt = None \<rparr>]" and
      es: "events s' = update_first (hasId eid)
                   (\<lambda>e. e \<lparr> currentAttendees := currentAttendees e + 1,
                            attendees := attendees e @ [uid] \<rparr>) (events s)" and
      nx: "nextEventId s' = nextEventId s"
      by (rule createRSVP_Inr)
    from found have eid: "eid = Some (event_id ev)" and ev_in: "ev \<in> set (events s)"
      by (simp_all add: find_hasId)
    from wf have dist: "distinct (map event_id (events s))"
      by (simp add: wellFormed_def)
    have ids: "map event_id (events s') = map event_id (events s)"
      unfolding es by (rule map_update_first) simp
    have es': "events s' = map (\<lambda>e. if hasId eid e
                 then e \<lparr> currentAttendees := currentAttendees e + 1,
                          attendees := attendees e @ [uid] \<rparr> else e) (events s)"
      unfolding es by (rule update_first_distinct [OF dist])
    have act: "activeCount s' j = activeCount s j + (if j = event_id ev then 1 else 0)" for j
      by (simp add: activeCount_def rs)
    have 1: "distinct (map event_id (events s'))"
      using dist ids by simp
    have 2: "3 \<le> nextEventId s'"
      using wf nx by (simp add: wellFormed_def)
    have 3: "\<forall>e\<in>set (events s'). event_id e < nextEventId s'"
    proof
      fix e' assume "e' \<in> set (events s')"
      then have "event_id e' \<in> set (map event_id (events s'))"
        by simp
      then obtain e where "e \<in> set (events s)" "event_id e = event_id e'"
        unfolding ids by auto
      with wf nx show "event_id e' < nextEventId s'"
        by (auto simp: wellFormed_def)
    qed
    have 4: "\<forall>r\<in>set (rsvps s'). eventId r < nextEventId s'"
      using wf nx ev_in by (auto simp: rs wellFormed_def)
    have 5: "\<forall>e\<in>set (events s').
        currentAttendees e = entryAttendees (event_id e) + int (activeCount s' (event_id e))"
    proof
      fix e' assume "e' \<in> set (events s')"
      then obtain e where e: "e \<in> set (events s)" and
        e': "e' = (if hasId eid e
                 then e \<lparr> currentAttendees := currentAttendees e + 1,
                          attendees := attendees e @ [uid] \<rparr> else e)"
        unfolding es' by auto
      from wf e have old: "currentAttendees e = entryAttendees (event_id e) + int (activeCount s (event_id e))"
        by (simp add: wellFormed_def)
      show "currentAttendees e' = entryAttendees (event_id e') + int (activeCount s' (event_id e'))"
        using old by (simp add: e' act eid hasId_def)
    qed
    have 6: "length (filter (activeOf u j) (rsvps s')) \<le> 1" for u j
    proof (cases "u = uid \<and> j = event_id ev")
      case True
      from nodup have "filter (activeOf uid (event_id ev)) (rsvps s) = []"
        by (simp add: eid isActiveRsvp_Some filter_activeOf_empty)
      with True show ?thesis by (simp add: rs)
    next
      case False
      then have "filter (activeOf u j) (rsvps s') = filter (activeOf u j) (rsvps s)"
        by (auto simp: rs activeOf_def)
      with wf show ?thesis by (simp add: wellFormed_def)
    qed
    from 1 2 3 4 5 6 have "wellFormed s'"
      unfolding wellFormed_def by blast
    with Pair show ?thesis by simp
  qed
qed

lemma wellFormed_cancelRSVP:
  assumes wf: "wellFormed s"
  shows "wellFormed (snd (cancelRSVP s eid uid))"
proof (cases "cancelRSVP s eid uid")
  case (Pair res s')
  show ?thesis
  proof (cases res)
    case (Inl m)
    with Pair have "s' = s" by (simp add: cancelRSVP_Inl)
    with Pair wf show ?thesis by simp
  next
    case (Inr x)
    from Pair [unfolded Inr] obtain k where
      k: "k < length (rsvps s)" and
      act_k: "isActiveRsvp uid eid (rsvps s ! k)" and
      rs: "rsvps s' = (rsvps s)[k := (rsvps s ! k) \<lparr> status := cancelled \<rparr>]" and
      es: "events s' = update_first (hasId eid)
                   (\<lambda>e. e \<lparr> currentAttendees := currentAttendees e - 1,
                            attendees := filter (\<lambda>i. i \<noteq> uid) (attendees e) \<rparr>) (events s)" and
      nx: "nextEventId s' = nextEventId s"
      by (rule cancelRSVP_Inr)
    define i where "i = eventId (rsvps s ! k)"
    from act_k have eid: "eid = Some i" and st: "status (rsvps s ! k) = attending"
      by (auto simp: isActiveRsvp_def i_def)
    from wf have dist: "distinct (map event_id (events s))"
      by (simp add: wellFormed_def)
    have ids: "map event_id (events s') = map event_id (events s)"
      unfolding es by (rule map_update_first) simp
    have es': "events s' = map (\<lambda>e. if hasId eid e
                 then e \<lparr> currentAttendees := currentAttendees e - 1,
                          attendees := filter (\<lambda>i. i \<noteq> uid) (attendees e) \<rparr> else e) (events s)"
      unfolding es by (rule update_first_distinct [OF dist])
    have act: "activeCount s' j + (if j = i then 1 else 0) = activeCount s j" for j
      using length_filter_update [OF k, of "\<lambda>r. eventId r = j \<and> status r = attending"
          "(rsvps s ! k) \<lparr> status := cancelled \<rparr>"] st
      by (auto simp: activeCount_def rs i_def)
    have 1: "distinct (map event_id (events s'))"
      using dist ids by simp
    have 2: "3 \<le> nextEventId s'"
      using wf nx by (simp add: wellFormed_def)
    have 3: "\<forall>e\<in>set (events s'). event_id e < nextEventId s'"
    proof
      fix e' assume "e' \<in> set (events s')"
      then have "event_id e' \<in> set (map event_id (events s'))"
        by simp
      then obtain e where "e \<in> set (events s)" "event_id e = event_id e'"
        unfolding ids by auto
      with wf nx show "event_id e' < nextEventId s'"
        by (auto simp: wellFormed_def)
    qed
    have 4: "\<forall>r\<in>set (rsvps s'). eventId r < nextEventId s'"
    proof
      fix r assume "r \<in> set (rsvps s')"
      then have "r = (rsvps s ! k) \<lparr> status := cancelled \<rparr> \<or> r \<in> set (rsvps s)"
        unfolding rs using set_update_subset_insert by fastforce
      moreover have "rsvps s ! k \<in> set (rsvps s)"
        using k by simp
      ultimately show "eventId r < nextEventId s'"
        using wf nx by (auto simp: wellFormed_def)
    qed
    have 5: "\<forall>e\<in>set (events s').
        currentAttendees e = entryAttendees (event_id e) + int (activeCount s' (event_id e))"
    proof
      fix e' assume "e' \<in> set (events s')"
      then obtain e where e: "e \<in> set (events s)" and
        e': "e' = (if hasId eid e
                 then e \<lparr> currentAttendees := currentAttendees e - 1,
                          attendees := filter (\<lambda>i. i \<noteq> uid) (attendees e) \<rparr> else e)"
        unfolding es' by auto
      from wf e have old: "currentAttendees e = entryAttendees (event_id e) + int (activeCount s (event_id e))"
        by (simp add: wellFormed_def)
      show "currentAttendees e' = entryAttendees (event_id e') + int (activeCount s' (event_id e'))"
        using old act [of "event_id e"] by (auto simp: e' eid hasId_def)
    qed
    have 6: "length (filter (activeOf u j) (rsvps s')) \<le> 1" for u j
    proof -
      have "length (filter (activeOf u j) (rsvps s')) \<le> length (filter (activeOf u j) (rsvps s))"
        using length_filter_update [OF k, of "activeOf u j" "(rsvps s ! k) \<lparr> status := cancelled \<rparr>"]
        by (simp add: rs activeOf_def split: if_splits)
      with wf show ?thesis by (simp add: wellFormed_def le_trans)
    qed
    from 1 2 3 4 5 6 have "wellFormed s'"
      unfolding wellFormed_def by blast
    with Pair show ?thesis by simp
  qed
qed

lemma wellFormed_createEvent:
  assumes wf: "wellFormed s"
  shows "wellFormed (snd (createEvent s ed uid now created))"
proof (cases "validateEventData ed now = []")
  case False
  with wf show ?thesis by (simp add: createEvent_def)
next
  case True
  have none: "filter (\<lambda>r. eventId r = nextEventId s \<and> status r = attending) (rsvps s) = []"
    using wf by (auto simp: wellFormed_def filter_empty_conv)
  have entry: "entryAttendees (nextEventId s) = 0"
    using wf by (simp add: wellFormed_def entryAttendees_def)
  from wf True none entry show ?thesis
    by (auto simp: createEvent_def Let_def wellFormed_def activeCount_def)
qed

lemma wellFormed_step: "wellFormed s \<Longrightarrow> wellFormed (step s c)"
  by (cases c) (simp_all add: wellFormed_createRSVP wellFormed_cancelRSVP wellFormed_createEvent)

lemma wellFormed_foldl: "wellFormed s \<Longrightarrow> wellFormed (foldl step s cs)"
  by (induction cs arbitrary: s) (simp_all add: wellFormed_step)

lemma wellFormed_run: "wellFormed (run cs (initialStore t1 t2 c1 c2))"
  unfolding run_def by (rule wellFormed_foldl [OF wellFormed_initialStore])

section \<open>Counters of reachable stores\<close>

lemma reservedCount_Some:
  "reservedCount s eid = Some n \<longleftrightarrow> (\<exists>e. find (hasId eid) (events s) = Some e \<and> currentAttendees e = n)"
  by (auto simp: reservedCount_def)

lemma reservedCount_None:
  "reservedCount s (Some i) = None \<longleftrightarrow> i \<notin> set (map event_id (events s))"
  by (auto simp: reservedCount_def find_None_iff hasId_def)

lemma event_ids_createRSVP:
  "map event_id (events (snd (createRSVP s eid uid now stamp created))) = map event_id (events s)"
  by (simp add: createRSVP_def Let_def map_update_first split: sum.splits)

lemma event_ids_cancelRSVP:
  "map event_id (events (snd (cancelRSVP s eid uid))) = map event_id (events s)"
  by (simp add: cancelRSVP_def Let_def map_update_first split: option.splits)

lemma run_snoc: "run (cs @ [c]) s = step (run cs s) c"
  by (simp add: run_def)

lemma wellFormed_counter:
  assumes "wellFormed s" "reservedCount s (Some i) = Some n"
  shows "n = entryAttendees i + int (activeCount s i)"
proof -
  from assms(2) obtain e where e: "find (hasId (Some i)) (events s) = Some e" "currentAttendees e = n"
    by (auto simp: reservedCount_Some)
  then have "event_id e = i" "e \<in> set (events s)"
    using find_hasId [OF e(1)] by simp_all
  with assms(1) e(2) show ?thesis
    by (auto simp: wellFormed_def)
qed

lemma entered_without_records:
  assumes wf: "wellFormed s"
    and absent: "reservedCount s (Some i) = None"
    and present: "reservedCount (step s c) (Some i) = Some n"
  shows "activeCount (step s c) i = 0"
proof (cases c)
  case (CreateRSVP eid uid now stamp created)
  from absent have "i \<notin> set (map event_id (events (step s c)))"
    by (simp add: CreateRSVP event_ids_createRSVP reservedCount_None)
  then have "reservedCount (step s c) (Some i) = None"
    by (simp add: reservedCount_None)
  with present show ?thesis by simp
next
  case (CancelRSVP eid uid)
  from absent have "i \<notin> set (map event_id (events (step s c)))"
    by (simp add: CancelRSVP event_ids_cancelRSVP reservedCount_None)
  then have "reservedCount (step s c) (Some i) = None"
    by (simp add: reservedCount_None)
  with present show ?thesis by simp
next
  case (CreateEvent ed uid now created)
  show ?thesis
  proof (cases "validateEventData ed now = []")
    case False
    with CreateEvent absent present show ?thesis
      by (simp add: createEvent_def)
  next
    case True
    with CreateEvent have s': "events (step s c) = events s @
        [\<lparr> event_id = nextEventId s,
                title = sanitizeString (ed_title ed),
                description = sanitizeString (ed_description ed),
                date = (case ed_date ed of None \<Rightarrow> None | Some d \<Rightarrow> d),
                location = sanitizeString (ed_location ed),
                capacity = ed_capacity ed,
                currentAttendees = 0,
                creator = uid,
                creatorName = ''User'',
                attendees = [],
                event_createdAt = created \<rparr>]" "rsvps (step s c) = rsvps s"
      by (simp_all add: createEvent_def Let_def)
    from present have "i \<in> set (map event_id (events (step s c)))"
      using reservedCount_None [of "step s c" i] by auto
    with absent have "i = nextEventId s"
      by (auto simp: s' reservedCount_None)
    with wf have "filter (\<lambda>r. eventId r = i \<and> status r = attending) (rsvps s) = []"
      by (auto simp: wellFormed_def filter_empty_conv)
    then show ?thesis
      by (simp add: activeCount_def s')
  qed
qed


lemma find_update_first_iff:
  assumes "\<And>x. P (f x) = P x"
  shows "find P (update_first P f xs) = map_option f (find P xs)"
  using assms by (induction xs) auto

section \<open>Capacity\<close>

lemma withinCapacity_createRSVP:
  assumes inv: "withinCapacity s"
  shows "withinCapacity (snd (createRSVP s eid uid now stamp created))"
proof (cases "createRSVP s eid uid now stamp created")
  case (Pair res s')
  show ?thesis
  proof (cases res)
    case (Inl m)
    with Pair have "s' = s" by (simp add: createRSVP_Inl)
    with Pair inv show ?thesis by simp
  next
    case (Inr x)
    from Pair [unfolded Inr] obtain ev where
      found: "find (hasId eid) (events s) = Some ev" and
      room: "currentAttendees ev < capacity ev" and
      es: "events s' = update_first (hasId eid)
                   (\<lambda>e. e \<lparr> currentAttendees := currentAttendees e + 1,
                            attendees := attendees e @ [uid] \<rparr>) (events s)"
      by (rule createRSVP_Inr)
    have "currentAttendees e \<le> capacity e" if "e \<in> set (events s')" for e
    proof -
      from update_first_cases [OF that [unfolded es]] found
      have "e \<in> set (events s) \<or>
            e = ev \<lparr> currentAttendees := currentAttendees ev + 1, attendees := attendees ev @ [uid] \<rparr>"
        by simp
      then show ?thesis
      proof
        assume "e \<in> set (events s)"
        with inv show ?thesis by (simp add: withinCapacity_def)
      next
        assume "e = ev \<lparr> currentAttendees := currentAttendees ev + 1, attendees := attendees ev @ [uid] \<rparr>"
        with room show ?thesis by simp
      qed
    qed
    then have "withinCapacity s'"
      by (simp add: withinCapacity_def)
    with Pair show ?thesis by simp
  qed
qed

lemma withinCapacity_cancelRSVP:
  assumes inv: "withinCapacity s"
  shows "withinCapacity (snd (cancelRSVP s eid uid))"
proof (cases "cancelRSVP s eid uid")
  case (Pair res s')
  show ?thesis
  proof (cases res)
    case (Inl m)
    with Pair have "s' = s" by (simp add: cancelRSVP_Inl)
    with Pair inv show ?thesis by simp
  next
    case (Inr x)
    from Pair [unfolded Inr] have
      es: "events s' = update_first (hasId eid)
                   (\<lambda>e. e \<lparr> currentAttendees := currentAttendees e - 1,
                            attendees := filter (\<lambda>i. i \<noteq> uid) (attendees e) \<rparr>) (events s)"
      by (rule cancelRSVP_Inr)
    have "currentAttendees e \<le> capacity e" if "e \<in> set (events s')" for e
      using update_first_cases [OF that [unfolded es]]
    proof
      assume "e \<in> set (events s)"
      with inv show ?thesis by (simp add: withinCapacity_def)
    next
      assume "\<exists>ev. find (hasId eid) (events s) = Some ev \<and>
          e = ev \<lparr> currentAttendees := currentAttendees ev - 1,
                    attendees := filter (\<lambda>i. i \<noteq> uid) (attendees ev) \<rparr>"
      then obtain ev where ev: "find (hasId eid) (events s) = Some ev"
        and e: "e = ev \<lparr> currentAttendees := currentAttendees ev - 1,
                    attendees := filter (\<lambda>i. i \<noteq> uid) (attendees ev) \<rparr>"
        by blast
      from ev have "ev \<in> set (events s)"
        by (simp add: find_hasId)
      with inv have "currentAttendees ev \<le> capacity ev"
        by (simp add: withinCapacity_def)
      with e show ?thesis by simp
    qed
    then have "withinCapacity s'"
      by (simp add: withinCapacity_def)
    with Pair show ?thesis by simp
  qed
qed

lemma withinCapacity_foldl:
  "list_all isRsvpCall cs \<Longrightarrow> withinCapacity s \<Longrightarrow> withinCapacity (foldl step s cs)"
proof (induction cs arbitrary: s)
  case Nil
  then show ?case by simp
next
  case (Cons c cs)
  from Cons.prems have "withinCapacity (step s c)"
    by (cases c) (simp_all add: withinCapacity_createRSVP withinCapacity_cancelRSVP)
  with Cons show ?case by simp
qed

lemma withinCapacity_initialStore: "withinCapacity (initialStore t1 t2 c1 c2)"
  by (simp add: withinCapacity_def initialStore_def initializeDefaultEvents_def)

text \<open>
  Claim C1. For every sequence of \<^verbatim>\<open>createRSVP\<close> and \<^verbatim>\<open>cancelRSVP\<close> calls applied to the
  initial store, and for every event of the store, \<open>currentAttendees\<close> is at most
  \<open>capacity\<close>. The sequence is arbitrary, so the statement holds after each of its
  prefixes, that is at every point between two calls, the initial store included.
\<close>

theorem capacity_invariant:
  assumes "list_all isRsvpCall cs"
  shows "\<forall>e\<in>set (events (run cs (initialStore t1 t2 c1 c2))). currentAttendees e \<le> capacity e"
proof -
  from assms withinCapacity_initialStore
  have "withinCapacity (foldl step (initialStore t1 t2 c1 c2) cs)"
    by (rule withinCapacity_foldl)
  then show ?thesis
    by (simp add: withinCapacity_def run_def)
qed

text \<open>
  The theorem of C1 at a concrete sequence on event 2: \<open>ann\<close> books and cancels, \<open>bob\<close>
  books; the counters end at 23 of 150 and 13 of 50.
\<close>

theorem capacity_invariant_witness:
  "list_all isRsvpCall [CreateRSVP (Some 2) ''ann'' 10 11 12, CancelRSVP (Some 2) ''ann'',
                         CreateRSVP (Some 2) ''bob'' 20 21 22] \<and>
   list_all (\<lambda>e. currentAttendees e \<le> capacity e)
     (events (run [CreateRSVP (Some 2) ''ann'' 10 11 12, CancelRSVP (Some 2) ''ann'',
                   CreateRSVP (Some 2) ''bob'' 20 21 22] demoStore)) \<and>
   map currentAttendees
     (events (run [CreateRSVP (Some 2) ''ann'' 10 11 12, CancelRSVP (Some 2) ''ann'',
                   CreateRSVP (Some 2) ''bob'' 20 21 22] demoStore)) = [23, 13]"
proof -
  have calls: "list_all isRsvpCall [CreateRSVP (Some 2) ''ann'' 10 11 12, CancelRSVP (Some 2) ''ann'',
                         CreateRSVP (Some 2) ''bob'' 20 21 22]"
    by simp
  have "list_all (\<lambda>e. currentAttendees e \<le> capacity e)
     (events (run [CreateRSVP (Some 2) ''ann'' 10 11 12, CancelRSVP (Some 2) ''ann'',
                   CreateRSVP (Some 2) ''bob'' 20 21 22] demoStore))"
    unfolding list_all_iff by (rule capacity_invariant [OF calls])
  moreover have "map currentAttendees
     (events (run [CreateRSVP (Some 2) ''ann'' 10 11 12, CancelRSVP (Some 2) ''ann'',
                   CreateRSVP (Some 2) ''bob'' 20 21 22] demoStore)) = [23, 13]"
    by code_simp
  ultimately show ?thesis
    using calls by blast
qed

section \<open>The counter and the attending records\<close>

text \<open>
  Claim C2, as stated, fails in the initial store: the default event 1 starts with
  \<open>currentAttendees = 23\<close> while the RSVP list is empty, so its counter is not the number
  of attending records.
\<close>

theorem initial_counter_counterexample:
  "reservedCount demoStore (Some 1) = Some 23 \<and> activeCount demoStore 1 = 0 \<and>
   reservedCount demoStore (Some 1) \<noteq> Some (int (activeCount demoStore 1))"
  by code_simp

text \<open>
  Claim C2, amended. After every sequence of \<^verbatim>\<open>createRSVP\<close>, \<^verbatim>\<open>cancelRSVP\<close> and
  \<^verbatim>\<open>createEvent\<close> calls on the initial store, the counter of every event in the store is
  the value the event entered the store with (23 and 12 for the default events, 0 for an
  event of \<^verbatim>\<open>createEvent\<close>) plus the number of attending records of the event. The
  counter equals the number of attending records for the events of \<^verbatim>\<open>createEvent\<close>.
\<close>

theorem counter_is_entry_plus_active:
  assumes "reservedCount (run cs (initialStore t1 t2 c1 c2)) (Some i) = Some n"
  shows "n = entryAttendees i + int (activeCount (run cs (initialStore t1 t2 c1 c2)) i)"
  using wellFormed_run assms by (rule wellFormed_counter)

text \<open>
  The amended C2 at a concrete store: after \<open>ann\<close> has booked event 2 its counter is
  \<open>13 = 12 + 1\<close>.
\<close>

theorem counter_is_entry_plus_active_witness:
  "reservedCount (run [CreateRSVP (Some 2) ''ann'' 10 11 12] demoStore) (Some 2) = Some 13 \<and>
   13 = entryAttendees 2 + int (activeCount (run [CreateRSVP (Some 2) ''ann'' 10 11 12] demoStore) 2) \<and>
   activeCount (run [CreateRSVP (Some 2) ''ann'' 10 11 12] demoStore) 2 = 1"
proof -
  have count: "reservedCount (run [CreateRSVP (Some 2) ''ann'' 10 11 12] demoStore) (Some 2) = Some 13"
    by code_simp
  have "activeCount (run [CreateRSVP (Some 2) ''ann'' 10 11 12] demoStore) 2 = 1"
    by code_simp
  with count counter_is_entry_plus_active [OF count] show ?thesis
    by blast
qed

text \<open>
  Claim C10. A resource has entered the store at the end of the calls \<open>cs1\<close> when it is in
  the store then and either \<open>cs1\<close> is empty (a default event) or it was not in the store
  before the last call of \<open>cs1\<close> (an event of \<^verbatim>\<open>createEvent\<close>); \<open>n\<close> is its counter at
  that point. After any further calls \<open>cs2\<close> its counter \<open>m\<close> is not below \<open>n\<close>, and not
  below 0, although \<^verbatim>\<open>cancelRSVP\<close> decrements without looking at the counter.
\<close>

theorem counter_never_below_entry:
  assumes entered: "cs1 = [] \<or>
      reservedCount (run (butlast cs1) (initialStore t1 t2 c1 c2)) (Some i) = None"
    and entry: "reservedCount (run cs1 (initialStore t1 t2 c1 c2)) (Some i) = Some n"
    and later: "reservedCount (run (cs1 @ cs2) (initialStore t1 t2 c1 c2)) (Some i) = Some m"
  shows "n \<le> m \<and> 0 \<le> m"
proof -
  let ?init = "initialStore t1 t2 c1 c2"
  have "activeCount (run cs1 ?init) i = 0"
  proof (cases "cs1 = []")
    case True
    then show ?thesis
      by (simp add: run_def initialStore_def activeCount_def)
  next
    case False
    then have cs1: "cs1 = butlast cs1 @ [last cs1]"
      by simp
    from False entered have absent: "reservedCount (run (butlast cs1) ?init) (Some i) = None"
      by simp
    have "run cs1 ?init = step (run (butlast cs1) ?init) (last cs1)"
      using run_snoc [of "butlast cs1" "last cs1" ?init] cs1 by simp
    with entered_without_records [OF wellFormed_run absent, of "last cs1" n] entry
    show ?thesis by simp
  qed
  with wellFormed_counter [OF wellFormed_run entry] have n: "n = entryAttendees i"
    by simp
  from wellFormed_counter [OF wellFormed_run later]
  have m: "m = entryAttendees i + int (activeCount (run (cs1 @ cs2) ?init) i)" .
  have "0 \<le> entryAttendees i"
    by (simp add: entryAttendees_def)
  with n m show ?thesis by simp
qed

text \<open>
  The theorem of C10 at two concrete histories. \<open>carl\<close> creates an event, which gets the
  id 3 and the counter 0; \<open>ann\<close> books it and cancels; the counter is 0 again. The default
  event 1 is in the initial store with the counter 23; after \<open>ann\<close> has booked and
  cancelled it the counter is 23 again.
\<close>

theorem counter_never_below_entry_witness:
  "reservedCount (run (butlast [CreateEvent demoParty ''carl'' 100 101]) demoStore) (Some 3) = None \<and>
   reservedCount (run [CreateEvent demoParty ''carl'' 100 101] demoStore) (Some 3) = Some 0 \<and>
   reservedCount (run ([CreateEvent demoParty ''carl'' 100 101] @
        [CreateRSVP (Some 3) ''ann'' 200 201 202, CancelRSVP (Some 3) ''ann'']) demoStore) (Some 3) = Some 0 \<and>
   reservedCount (run ([CreateEvent demoParty ''carl'' 100 101] @
        [CreateRSVP (Some 3) ''ann'' 200 201 202]) demoStore) (Some 3) = Some 1 \<and>
   (0::int) \<le> 0 \<and>
   reservedCount (run [] demoStore) (Some 1) = Some 23 \<and>
   reservedCount (run ([] @ [CreateRSVP (Some 1) ''ann'' 10 11 12, CancelRSVP (Some 1) ''ann''])
        demoStore) (Some 1) = Some 23 \<and>
   (23::int) \<le> 23"
proof -
  have absent: "reservedCount (run (butlast [CreateEvent demoParty ''carl'' 100 101]) demoStore) (Some 3) = None"
    by code_simp
  have entry: "reservedCount (run [CreateEvent demoParty ''carl'' 100 101] demoStore) (Some 3) = Some 0"
    by code_simp
  have later: "reservedCount (run ([CreateEvent demoParty ''carl'' 100 101] @
        [CreateRSVP (Some 3) ''ann'' 200 201 202, CancelRSVP (Some 3) ''ann'']) demoStore) (Some 3) = Some 0"
    by code_simp
  have between: "reservedCount (run ([CreateEvent demoParty ''carl'' 100 101] @
        [CreateRSVP (Some 3) ''ann'' 200 201 202]) demoStore) (Some 3) = Some 1"
    by code_simp
  have created: "(0::int) \<le> 0"
    using counter_never_below_entry [OF disjI2 [OF absent] entry later] by simp
  have entry': "reservedCount (run [] demoStore) (Some 1) = Some 23"
    by code_simp
  have later': "reservedCount (run ([] @ [CreateRSVP (Some 1) ''ann'' 10 11 12, CancelRSVP (Some 1) ''ann''])
        demoStore) (Some 1) = Some 23"
    by code_simp
  have seeded: "(23::int) \<le> 23"
    using counter_never_below_entry [OF disjI1 [OF refl] entry' later'] by simp
  from absent entry later between created entry' later' seeded show ?thesis
    by blast
qed

section \<open>Creating an RSVP\<close>

text \<open>
  Claim C4, as stated, fails when the date of the event has passed: \<open>ann\<close> holds an
  attending RSVP for event 1, whose date is the instant 1000; her second
  \<^verbatim>\<open>createRSVP\<close> at the instant 1000 is answered by the past-event check, which the code
  makes before it looks for an existing RSVP.
\<close>

theorem duplicate_past_event_counterexample:
  "find (isActiveRsvp ''ann'' (Some 1)) (rsvps annBooked) \<noteq> None \<and>
   fst (createRSVP annBooked (Some 1) ''ann'' 1000 1001 1002) = Inl ''Cannot RSVP to past events''"
  by code_simp

text \<open>
  Claim C4, amended. If a user holds an attending RSVP for an event, a further
  \<^verbatim>\<open>createRSVP\<close> of the same user for the same event leaves the whole store, and so the
  counter of the event, unchanged. Its answer is \<^verbatim>\<open>'You have already RSVP'd to this event'\<close>
  when the event is in the store and its date is after the time of the call; it is
  \<^verbatim>\<open>'Event not found'\<close> when the event is not in the store and
  \<^verbatim>\<open>'Cannot RSVP to past events'\<close> when the date is not after the time of the call.
\<close>

theorem duplicate_rsvp_rejected:
  assumes "find (isActiveRsvp uid eid) (rsvps s) \<noteq> None"
  shows "snd (createRSVP s eid uid now stamp created) = s \<and>
         fst (createRSVP s eid uid now stamp created) =
           (case getEventById s eid of
              Inl err \<Rightarrow> Inl err
            | Inr ev \<Rightarrow>
                if notAfter (date ev) now then Inl ''Cannot RSVP to past events''
                else Inl ''You have already RSVP'd to this event'')"
  using assms by (simp add: createRSVP_def split: sum.splits)

text \<open>
  The amended C4 at a concrete store: \<open>ann\<close> has booked event 1 and asks again at the
  instant 20, before the date of the event.
\<close>

theorem duplicate_rsvp_rejected_witness:
  "find (isActiveRsvp ''ann'' (Some 1)) (rsvps annBooked) \<noteq> None \<and>
   createRSVP annBooked (Some 1) ''ann'' 20 21 22 =
     (Inl ''You have already RSVP'd to this event'', annBooked) \<and>
   reservedCount annBooked (Some 1) = Some 24"
proof -
  have held: "find (isActiveRsvp ''ann'' (Some 1)) (rsvps annBooked) \<noteq> None"
    by code_simp
  have answer: "(case getEventById annBooked (Some 1) of
              Inl err \<Rightarrow> Inl err
            | Inr ev \<Rightarrow>
                if notAfter (date ev) 20 then Inl ''Cannot RSVP to past events''
                else Inl ''You have already RSVP'd to this event'') =
           (Inl ''You have already RSVP'd to this event'' :: event option result)"
    by code_simp
  from duplicate_rsvp_rejected [OF held, of 20 21 22]
  have "createRSVP annBooked (Some 1) ''ann'' 20 21 22 =
     (Inl ''You have already RSVP'd to this event'', annBooked)"
    unfolding answer by (simp add: prod_eq_iff)
  moreover have "reservedCount annBooked (Some 1) = Some 24"
    by code_simp
  ultimately show ?thesis
    using held by blast
qed

text \<open>
  Claim C5. \<^verbatim>\<open>createRSVP\<close> answers with success exactly when the counter of the event goes
  up by one. A success appends one attending record of the user for the event. An error
  is one of the four messages and leaves the store, records and counters, as it was.
\<close>

theorem createRSVP_frame:
  assumes "createRSVP s eid uid now stamp created = (res, s')"
  shows "((\<exists>x. res = Inr x) \<longleftrightarrow>
            (\<exists>n. reservedCount s eid = Some n \<and> reservedCount s' eid = Some (n + 1))) \<and>
         (\<forall>x. res = Inr x \<longrightarrow> (\<exists>r. rsvps s' = rsvps s @ [r] \<and> isActiveRsvp uid eid r)) \<and>
         (\<forall>m. res = Inl m \<longrightarrow> s' = s \<and>
            m \<in> {''Event not found'', ''Cannot RSVP to past events'',
                  ''You have already RSVP'd to this event'', ''Event is at full capacity''})"
proof (cases res)
  case (Inl m)
  with assms have same: "s' = s"
    by (simp add: createRSVP_Inl)
  from assms Inl have "m \<in> {''Event not found'', ''Cannot RSVP to past events'',
                  ''You have already RSVP'd to this event'', ''Event is at full capacity''}"
    by (auto simp: createRSVP_def getEventById_def Let_def split: sum.splits option.splits if_splits)
  with Inl same show ?thesis by auto
next
  case (Inr x)
  from assms [unfolded Inr] obtain ev where
    found: "find (hasId eid) (events s) = Some ev" and
    rs: "rsvps s' = rsvps s @ [\<lparr> rsvp_id = stamp, userId = uid, eventId = event_id ev,
                      status = attending, rsvp_createdAt = created, cancelledAt = None \<rparr>]" and
    es: "events s' = update_first (hasId eid)
                   (\<lambda>e. e \<lparr> currentAttendees := currentAttendees e + 1,
                            attendees := attendees e @ [uid] \<rparr>) (events s)"
    by (rule createRSVP_Inr)
  from found have eid: "eid = Some (event_id ev)"
    by (simp add: find_hasId)
  have before: "reservedCount s eid = Some (currentAttendees ev)"
    by (simp add: reservedCount_def found)
  have "find (hasId eid) (events s') = Some (ev \<lparr> currentAttendees := currentAttendees ev + 1,
                            attendees := attendees ev @ [uid] \<rparr>)"
    unfolding es by (rule find_update_first [OF found]) (simp add: eid hasId_def)
  then have after: "reservedCount s' eid = Some (currentAttendees ev + 1)"
    by (simp add: reservedCount_def)
  have "isActiveRsvp uid eid \<lparr> rsvp_id = stamp, userId = uid, eventId = event_id ev,
                      status = attending, rsvp_createdAt = created, cancelledAt = None \<rparr>"
    by (simp add: isActiveRsvp_def eid)
  with Inr before after rs show ?thesis by simp
qed

text \<open>
  The theorem of C5 at a concrete call: \<open>ann\<close> books event 1 in the initial store, and
  its counter goes from 23 to 24.
\<close>

theorem createRSVP_frame_witness:
  "createRSVP demoStore (Some 1) ''ann'' 10 11 12 =
     (Inr (eventSnapshot annBooked (Some 1)), annBooked) \<and>
   reservedCount demoStore (Some 1) = Some 23 \<and> reservedCount annBooked (Some 1) = Some 24 \<and>
   (\<exists>n. reservedCount demoStore (Some 1) = Some n \<and> reservedCount annBooked (Some 1) = Some (n + 1))"
proof -
  have call: "createRSVP demoStore (Some 1) ''ann'' 10 11 12 =
     (Inr (eventSnapshot annBooked (Some 1)), annBooked)"
    by code_simp
  have counts: "reservedCount demoStore (Some 1) = Some 23" "reservedCount annBooked (Some 1) = Some 24"
    by code_simp+
  from createRSVP_frame [OF call]
  have "\<exists>n. reservedCount demoStore (Some 1) = Some n \<and> reservedCount annBooked (Some 1) = Some (n + 1)"
    by blast
  with call counts show ?thesis
    by blast
qed

section \<open>Cancelling an RSVP\<close>

text \<open>
  Claim C6, as stated, fails on the \<open>cancelledAt\<close> stamp: \<open>ann\<close> cancels her RSVP for
  event 1, the call succeeds and the record has the status \<open>cancelled\<close>, but
  \<open>cancelledAt\<close> is still undefined. \<^verbatim>\<open>cancelRSVP\<close> writes the status and nothing else of
  the record.
\<close>

theorem cancel_without_stamp_counterexample:
  "fst (cancelRSVP annBooked (Some 1) ''ann'') = Inr (eventSnapshot annCancelled (Some 1)) \<and>
   status (hd (rsvps (snd (cancelRSVP annBooked (Some 1) ''ann'')))) = cancelled \<and>
   cancelledAt (hd (rsvps (snd (cancelRSVP annBooked (Some 1) ''ann'')))) = None"
  by code_simp

text \<open>
  Claim C6, amended. A successful \<^verbatim>\<open>cancelRSVP\<close> sets the status of the first attending
  record of the user for the event to \<open>cancelled\<close> and leaves every other record and every
  other field of that record, \<open>cancelledAt\<close> among them, as it was; and when the event is
  in the store its counter goes down by exactly one. Both effects are in the store the
  call leaves behind.
\<close>

theorem cancelRSVP_effect:
  assumes "cancelRSVP s eid uid = (Inr x, s')"
  shows "\<exists>k. k < length (rsvps s) \<and> isActiveRsvp uid eid (rsvps s ! k) \<and>
             (\<forall>j<k. \<not> isActiveRsvp uid eid (rsvps s ! j)) \<and>
             rsvps s' = (rsvps s)[k := (rsvps s ! k) \<lparr> status := cancelled \<rparr>] \<and>
             status (rsvps s' ! k) = cancelled \<and>
             cancelledAt (rsvps s' ! k) = cancelledAt (rsvps s ! k) \<and>
             (\<forall>n. reservedCount s eid = Some n \<longrightarrow> reservedCount s' eid = Some (n - 1))"
proof -
  from assms obtain k where
    idx: "findIndex (isActiveRsvp uid eid) (rsvps s) = Some k" and
    rs: "rsvps s' = (rsvps s)[k := (rsvps s ! k) \<lparr> status := cancelled \<rparr>]" and
    es: "events s' = update_first (hasId eid)
                   (\<lambda>e. e \<lparr> currentAttendees := currentAttendees e - 1,
                            attendees := filter (\<lambda>i. i \<noteq> uid) (attendees e) \<rparr>) (events s)"
    by (rule cancelRSVP_Inr)
  from findIndex_Some [OF idx] have k: "k < length (rsvps s)" "isActiveRsvp uid eid (rsvps s ! k)"
    "\<forall>j<k. \<not> isActiveRsvp uid eid (rsvps s ! j)"
    by simp_all
  have "reservedCount s' eid = map_option (\<lambda>n. n - 1) (reservedCount s eid)"
    by (simp add: reservedCount_def es find_update_first_iff hasId_def option.map_comp comp_def)
  then have "\<forall>n. reservedCount s eid = Some n \<longrightarrow> reservedCount s' eid = Some (n - 1)"
    by simp
  with k rs show ?thesis
    by (intro exI [of _ k]) simp
qed

text \<open>
  The amended C6 at a concrete call: \<open>ann\<close> cancels her RSVP for event 1, and the counter
  of the event goes from 24 to 23.
\<close>

theorem cancelRSVP_effect_witness:
  "cancelRSVP annBooked (Some 1) ''ann'' = (Inr (eventSnapshot annCancelled (Some 1)), annCancelled) \<and>
   reservedCount annBooked (Some 1) = Some 24 \<and>
   reservedCount annCancelled (Some 1) = Some 23 \<and>
   map status (rsvps annCancelled) = [cancelled]"
proof -
  have call: "cancelRSVP annBooked (Some 1) ''ann'' =
      (Inr (eventSnapshot annCancelled (Some 1)), annCancelled)"
    by code_simp
  have before: "reservedCount annBooked (Some 1) = Some 24"
    by code_simp
  from cancelRSVP_effect [OF call] before
  have "reservedCount annCancelled (Some 1) = Some (24 - 1)"
    by blast
  then have after: "reservedCount annCancelled (Some 1) = Some 23"
    by simp
  have "map status (rsvps annCancelled) = [cancelled]"
    by code_simp
  with call before after show ?thesis
    by blast
qed

text \<open>
  Claim C7. In every store, \<^verbatim>\<open>cancelRSVP\<close> for a user and an event with no attending
  record (there is none, or it is cancelled already) answers
  \<^verbatim>\<open>'No active RSVP found for this event'\<close> and leaves the store, counters and records, as
  it was; so a second cancellation does not decrement again.
\<close>

theorem cancelRSVP_without_active:
  assumes "\<forall>r\<in>set (rsvps s). \<not> isActiveRsvp uid eid r"
  shows "cancelRSVP s eid uid = (Inl ''No active RSVP found for this event'', s)"
proof -
  from assms have "findIndex (isActiveRsvp uid eid) (rsvps s) = None"
    by (simp add: findIndex_None)
  then show ?thesis
    by (simp add: cancelRSVP_def)
qed

text \<open>
  The theorem of C7 at a concrete store: \<open>ann\<close> has cancelled her RSVP for event 1 and
  cancels once more; the store is returned as it is, with the counter at 23.
\<close>

theorem cancelRSVP_without_active_witness:
  "filter (isActiveRsvp ''ann'' (Some 1)) (rsvps annCancelled) = [] \<and>
   map status (rsvps annCancelled) = [cancelled] \<and>
   cancelRSVP annCancelled (Some 1) ''ann'' =
     (Inl ''No active RSVP found for this event'', annCancelled) \<and>
   reservedCount annCancelled (Some 1) = Some 23"
proof -
  have none: "filter (isActiveRsvp ''ann'' (Some 1)) (rsvps annCancelled) = []"
    by code_simp
  then have "\<forall>r\<in>set (rsvps annCancelled). \<not> isActiveRsvp ''ann'' (Some 1) r"
    by (simp only: filter_empty_conv)
  then have "cancelRSVP annCancelled (Some 1) ''ann'' =
     (Inl ''No active RSVP found for this event'', annCancelled)"
    by (rule cancelRSVP_without_active)
  moreover have "map status (rsvps annCancelled) = [cancelled]"
    by code_simp
  moreover have "reservedCount annCancelled (Some 1) = Some 23"
    by code_simp
  ultimately show ?thesis
    using none by blast
qed

section \<open>Cancelling and booking again\<close>

text \<open>
  Claim C8. In a store reached from the initial one, let a user cancel an RSVP with
  success, and let the event then be in the store, dated after the time of the next call
  and below capacity. Then \<^verbatim>\<open>createRSVP\<close> of the same user for the same event succeeds
  and appends a new attending record; the old record stays where it was, with the status
  \<open>cancelled\<close>; and the counter of the event after the two calls is what it was before
  them.
\<close>

theorem cancel_then_recreate:
  assumes reach: "s = run cs (initialStore t1 t2 c1 c2)"
    and cancel: "cancelRSVP s eid uid = (Inr x, s1)"
    and found: "getEventById s1 eid = Inr ev"
    and future: "\<not> notAfter (date ev) now"
    and room: "currentAttendees ev < capacity ev"
  shows "\<exists>y s2 k.
           createRSVP s1 eid uid now stamp created = (Inr y, s2) \<and>
           rsvps s2 = rsvps s1 @ [\<lparr> rsvp_id = stamp, userId = uid, eventId = the eid,
                      status = attending, rsvp_createdAt = created, cancelledAt = None \<rparr>] \<and>
           k < length (rsvps s) \<and> isActiveRsvp uid eid (rsvps s ! k) \<and>
           rsvps s2 ! k = (rsvps s ! k) \<lparr> status := cancelled \<rparr> \<and>
           reservedCount s2 eid = reservedCount s eid"
proof -
  from reach have wf: "wellFormed s"
    by (simp add: wellFormed_run)
  from cancel obtain k where
    k: "k < length (rsvps s)" "isActiveRsvp uid eid (rsvps s ! k)" and
    rs: "rsvps s1 = (rsvps s)[k := (rsvps s ! k) \<lparr> status := cancelled \<rparr>]" and
    es: "events s1 = update_first (hasId eid)
                   (\<lambda>e. e \<lparr> currentAttendees := currentAttendees e - 1,
                            attendees := filter (\<lambda>i. i \<noteq> uid) (attendees e) \<rparr>) (events s)"
    by (rule cancelRSVP_Inr)
  define i where "i = eventId (rsvps s ! k)"
  from k(2) have eid: "eid = Some i"
    by (simp add: isActiveRsvp_def i_def)
  have ak: "activeOf uid i (rsvps s ! k)"
    using k(2) by (simp add: eid isActiveRsvp_Some)
  have "length (filter (activeOf uid i) (rsvps s1)) + 1 = length (filter (activeOf uid i) (rsvps s))"
    using length_filter_update [OF k(1), of "activeOf uid i" "(rsvps s ! k) \<lparr> status := cancelled \<rparr>"] ak
    by (simp add: rs activeOf_def)
  moreover from wf have "length (filter (activeOf uid i) (rsvps s)) \<le> 1"
    by (simp add: wellFormed_def)
  ultimately have "length (filter (activeOf uid i) (rsvps s1)) = 0"
    by arith
  then have "filter (activeOf uid i) (rsvps s1) = []"
    by simp
  then have nodup: "find (isActiveRsvp uid eid) (rsvps s1) = None"
    by (simp add: eid isActiveRsvp_Some find_None_iff filter_empty_conv)
  define s2 where "s2 = snd (createRSVP s1 eid uid now stamp created)"
  have created: "createRSVP s1 eid uid now stamp created = (Inr (eventSnapshot s2 eid), s2)"
    using found future room nodup
    by (simp add: s2_def createRSVP_def Let_def)
  have rs2: "rsvps s2 = rsvps s1 @ [\<lparr> rsvp_id = stamp, userId = uid, eventId = the eid,
                      status = attending, rsvp_createdAt = created, cancelledAt = None \<rparr>]"
    using found future room nodup
    by (simp add: s2_def createRSVP_def Let_def)
  have es2: "events s2 = update_first (hasId eid)
                   (\<lambda>e. e \<lparr> currentAttendees := currentAttendees e + 1,
                            attendees := attendees e @ [uid] \<rparr>) (events s1)"
    using found future room nodup
    by (simp add: s2_def createRSVP_def Let_def)
  have old: "rsvps s2 ! k = (rsvps s ! k) \<lparr> status := cancelled \<rparr>"
    using k(1) by (simp add: rs2 rs nth_append)
  have "reservedCount s2 eid = map_option (\<lambda>n. n + 1) (reservedCount s1 eid)"
    by (simp add: reservedCount_def es2 find_update_first_iff hasId_def option.map_comp comp_def)
  also have "reservedCount s1 eid = map_option (\<lambda>n. n - 1) (reservedCount s eid)"
    by (simp add: reservedCount_def es find_update_first_iff hasId_def option.map_comp comp_def)
  finally have "reservedCount s2 eid = reservedCount s eid"
    by (simp add: option.map_comp comp_def option.map_ident)
  with created rs2 k old show ?thesis
    by blast
qed

text \<open>
  The theorem of C8 at a concrete history: \<open>ann\<close> books event 1, cancels, and books again
  at the instant 20. The counter is 24 before the cancellation and 24 after the new
  booking, and the records are the cancelled one followed by the new attending one.
\<close>

theorem cancel_then_recreate_witness:
  "cancelRSVP annBooked (Some 1) ''ann'' = (Inr (eventSnapshot annCancelled (Some 1)), annCancelled) \<and>
   getEventById annCancelled (Some 1) = Inr (hd (events annCancelled)) \<and>
   \<not> notAfter (date (hd (events annCancelled))) 20 \<and>
   currentAttendees (hd (events annCancelled)) < capacity (hd (events annCancelled)) \<and>
   reservedCount annBooked (Some 1) = Some 24 \<and>
   reservedCount (snd (createRSVP annCancelled (Some 1) ''ann'' 20 21 22)) (Some 1) = Some 24 \<and>
   map status (rsvps (snd (createRSVP annCancelled (Some 1) ''ann'' 20 21 22))) = [cancelled, attending]"
proof -
  have cancel: "cancelRSVP annBooked (Some 1) ''ann'' =
      (Inr (eventSnapshot annCancelled (Some 1)), annCancelled)"
    by code_simp
  have found: "getEventById annCancelled (Some 1) = Inr (hd (events annCancelled))"
    by code_simp
  have future: "\<not> notAfter (date (hd (events annCancelled))) 20"
    by code_simp
  have room: "currentAttendees (hd (events annCancelled)) < capacity (hd (events annCancelled))"
    by code_simp
  have before: "reservedCount annBooked (Some 1) = Some 24"
    by code_simp
  from cancel_then_recreate [OF refl cancel found future room, of 21 22]
  obtain y s2 where "createRSVP annCancelled (Some 1) ''ann'' 20 21 22 = (Inr y, s2)"
    and "reservedCount s2 (Some 1) = reservedCount annBooked (Some 1)"
    by blast
  with before
  have after: "reservedCount (snd (createRSVP annCancelled (Some 1) ''ann'' 20 21 22)) (Some 1) = Some 24"
    by simp
  have "map status (rsvps (snd (createRSVP annCancelled (Some 1) ''ann'' 20 21 22))) =
      [cancelled, attending]"
    by code_simp
  with cancel found future room before after show ?thesis
    by blast
qed

section \<open>Calls in flight at once\<close>







lemma createRSVPs_run:
  "snd (createRSVPs s eid cs) =
   run (map (\<lambda>(uid, now, stamp, created). CreateRSVP eid uid now stamp created) cs) s"
  unfolding run_def
  by (induction cs arbitrary: s) (auto simp: split_beta)



section \<open>Identifiers of RSVP records\<close>

text \<open>
  Claim C9 asks for distinct ids of the RSVP records. The id of a record is the clock
  value \<^verbatim>\<open>Date.now()\<close> of its creation, in milliseconds. Two users who book within the
  same millisecond get records with the same id: here \<open>ann\<close> and \<open>bob\<close> book event 1 with
  the clock at 11, both calls succeed, and both records have the id 11.
\<close>

theorem rsvp_id_collision:
  "map rsvp_id (rsvps (run [CreateRSVP (Some 1) ''ann'' 10 11 12,
                             CreateRSVP (Some 1) ''bob'' 10 11 12] demoStore)) = [11, 11] \<and>
   map userId (rsvps (run [CreateRSVP (Some 1) ''ann'' 10 11 12,
                            CreateRSVP (Some 1) ''bob'' 10 11 12] demoStore)) = [''ann'', ''bob''] \<and>
   map status (rsvps (run [CreateRSVP (Some 1) ''ann'' 10 11 12,
                            CreateRSVP (Some 1) ''bob'' 10 11 12] demoStore)) = [attending, attending]"
  by code_simp

end
